theory Spec2Isabelle
  imports Complex_Main "HOL-Library.Word" "HOL-Library.AList"
begin

section \<open>Go values as reflection sees them\<close>

text \<open>
  The size estimator of \<^verbatim>\<open>accesscache.go\<close> walks a value through package
  \<^verbatim>\<open>reflect\<close>. The model keeps exactly what the walk observes: the kind of a value,
  the size of its type, its children, and for arrays, slices and maps the kind and size of
  the element (and key) type. Sizes are those of a 64-bit platform, the one the repository's
  tests assume (\<^verbatim>\<open>sizeof(1024) == 8\<close>, \<^verbatim>\<open>sizeof("") == 16\<close>).
\<close>

type_synonym uint64 = "64 word"
type_synonym int64 = "64 word"
type_synonym addr = nat

datatype kind =
    Invalid | Bool
  | Int_kind | Int8 | Int16 | Int32 | Int64
  | Uint | Uint8 | Uint16 | Uint32 | Uint64 | Uintptr
  | Float32 | Float64 | Complex64 | Complex128
  | Array | Chan | Func | Interface | Map | Ptr | Slice | String | Struct | UnsafePointer

text \<open>
  \<^item> \<open>VBasic k\<close>: a value of a kind the estimator's switch has no case for (booleans,
    numbers, channels, functions, interface-typed fields and elements, unsafe pointers);
  \<^item> \<open>VString n\<close>: a string of \<open>n\<close> bytes;
  \<^item> \<open>VPtr p\<close>: a pointer, \<open>None\<close> when nil, else the address of the pointee;
  \<^item> \<open>VStruct tsize fields\<close>: a struct whose type has size \<open>tsize\<close> (padding included);
  \<^item> \<open>VArray ek es elems\<close>: an array whose element type has kind \<open>ek\<close> and size \<open>es\<close>;
  \<^item> \<open>VSlice ek es elems\<close>: a slice, its elements given by their addresses in the
    backing array;
  \<^item> \<open>VMap kk ks vk vs entries\<close>: a map with key kind and size \<open>kk\<close>, \<open>ks\<close> and value
    kind and size \<open>vk\<close>, \<open>vs\<close>; \<open>None\<close> when nil, else the keys with the addresses
    of their values.
  Pointers, slices and maps refer to the heap, so a structure can be cyclic.
\<close>

datatype goval =
    VBasic kind
  | VString nat
  | VPtr "addr option"
  | VStruct uint64 "goval list"
  | VArray kind uint64 "goval list"
  | VSlice kind uint64 "addr list"
  | VMap kind uint64 kind uint64 "(goval \<times> addr) list option"

type_synonym heap = "addr \<Rightarrow> goval"

text \<open>An \<^verbatim>\<open>interface{}\<close> argument: \<open>None\<close> is the nil interface.\<close>

type_synonym iface = "goval option"

datatype panic =
    SizeMustBeGreaterZero
  | SizeOfRecursedTooOften
  | TypeOnZeroValue
  | SliceBoundsOutOfRange

definition sliceSize :: uint64 where
  "sliceSize = 24"

definition stringSize :: uint64 where
  "stringSize = 16"

fun kind_size :: "kind \<Rightarrow> uint64" where
  "kind_size Bool = 1"
| "kind_size Int_kind = 8"
| "kind_size Int8 = 1"
| "kind_size Int16 = 2"
| "kind_size Int32 = 4"
| "kind_size Int64 = 8"
| "kind_size Uint = 8"
| "kind_size Uint8 = 1"
| "kind_size Uint16 = 2"
| "kind_size Uint32 = 4"
| "kind_size Uint64 = 8"
| "kind_size Uintptr = 8"
| "kind_size Float32 = 4"
| "kind_size Float64 = 8"
| "kind_size Complex64 = 8"
| "kind_size Complex128 = 16"
| "kind_size Chan = 8"
| "kind_size Func = 8"
| "kind_size Interface = 16"
| "kind_size Map = 8"
| "kind_size Ptr = 8"
| "kind_size Slice = 24"
| "kind_size String = 16"
| "kind_size UnsafePointer = 8"
| "kind_size _ = 0"

text \<open>\<^verbatim>\<open>val.Kind()\<close> and \<^verbatim>\<open>val.Type().Size()\<close>.\<close>

fun Kind :: "goval \<Rightarrow> kind" where
  "Kind (VBasic k) = k"
| "Kind (VString n) = String"
| "Kind (VPtr p) = Ptr"
| "Kind (VStruct tsize fields) = Struct"
| "Kind (VArray ek es elems) = Array"
| "Kind (VSlice ek es elems) = Slice"
| "Kind (VMap kk ks vk vs entries) = Map"

fun typ_size :: "goval \<Rightarrow> uint64" where
  "typ_size (VBasic k) = kind_size k"
| "typ_size (VString n) = kind_size String"
| "typ_size (VPtr p) = kind_size Ptr"
| "typ_size (VStruct tsize fields) = tsize"
| "typ_size (VArray ek es elems) = es * of_nat (length elems)"
| "typ_size (VSlice ek es elems) = kind_size Slice"
| "typ_size (VMap kk ks vk vs entries) = kind_size Map"

section \<open>The size estimator\<close>

fun isNativeType :: "kind \<Rightarrow> bool" where
  "isNativeType Int_kind = True"
| "isNativeType Int8 = True"
| "isNativeType Int16 = True"
| "isNativeType Int32 = True"
| "isNativeType Int64 = True"
| "isNativeType Uint = True"
| "isNativeType Uint8 = True"
| "isNativeType Uint16 = True"
| "isNativeType Uint32 = True"
| "isNativeType Uint64 = True"
| "isNativeType Float32 = True"
| "isNativeType Float64 = True"
| "isNativeType Complex64 = True"
| "isNativeType Complex128 = True"
| "isNativeType _ = False"

text \<open>
  \<^verbatim>\<open>sz += r\<close> over the results of the recursive calls, in order; the first call that
  panics ends the estimate. Additions are on \<^verbatim>\<open>uint64\<close> and wrap.
\<close>

fun add_sizes :: "uint64 \<Rightarrow> (panic + uint64) list \<Rightarrow> panic + uint64" where
  "add_sizes sz [] = Inr sz"
| "add_sizes sz (r # rs) =
     (case r of Inl p \<Rightarrow> Inl p | Inr n \<Rightarrow> add_sizes (sz + n) rs)"

function sizeofInternal :: "heap \<Rightarrow> goval \<Rightarrow> bool \<Rightarrow> nat \<Rightarrow> panic + uint64" where
  "sizeofInternal h val fromStruct depth =
     (if depth + 1 > 1000 then Inl SizeOfRecursedTooOften
      else
        let sz = (if fromStruct then 0 else typ_size val) in
        case val of
          VPtr None \<Rightarrow> Inr sz
        | VPtr (Some a) \<Rightarrow> add_sizes sz [sizeofInternal h (h a) False (depth + 1)]
        | VStruct tsize fields \<Rightarrow>
            add_sizes sz (map (\<lambda>f. sizeofInternal h f True (depth + 1)) fields)
        | VArray ek es elems \<Rightarrow>
            if isNativeType ek then Inr sz
            else add_sizes 0 (map (\<lambda>e. sizeofInternal h e False (depth + 1)) elems)
        | VSlice ek es elems \<Rightarrow>
            let sz = (if \<not> fromStruct then sliceSize else sz) in
            if isNativeType ek then Inr (sz + of_nat (length elems) * es)
            else add_sizes sz (map (\<lambda>a. sizeofInternal h (h a) False (depth + 1)) elems)
        | VMap kk ks vk vs None \<Rightarrow> Inr sz
        | VMap kk ks vk vs (Some entries) \<Rightarrow>
            if isNativeType kk \<and> isNativeType vk
            then Inr (sz + (ks + vs) * of_nat (length entries))
            else add_sizes sz (concat (map (\<lambda>e.
                   [sizeofInternal h (fst e) False (depth + 1),
                    sizeofInternal h (h (snd e)) False (depth + 1)]) entries))
        | VString n \<Rightarrow>
            let sz = (if \<not> fromStruct then stringSize else sz) in
            Inr (sz + of_nat n)
        | VBasic k \<Rightarrow> Inr sz)"
  by pat_completeness auto
termination
  by (relation "measure (\<lambda>(h, val, fromStruct, depth). 1000 - depth)") auto

declare sizeofInternal.simps [simp del]

text \<open>
  \<^verbatim>\<open>reflect.ValueOf\<close> of the nil interface is the zero \<^verbatim>\<open>Value\<close>, and
  \<^verbatim>\<open>Type()\<close> on the zero \<^verbatim>\<open>Value\<close> panics.
\<close>

definition sizeof_obj :: "heap \<Rightarrow> iface \<Rightarrow> panic + uint64" where
  "sizeof_obj h obj =
     (case obj of None \<Rightarrow> Inl TypeOnZeroValue
      | Some val \<Rightarrow> sizeofInternal h val False 0)"

definition sizeof :: "heap \<Rightarrow> iface list \<Rightarrow> panic + uint64" where
  "sizeof h objs = add_sizes 0 (map (sizeof_obj h) objs)"

section \<open>The cache\<close>

text \<open>
  \<^verbatim>\<open>float64\<close> arithmetic is not interpreted: the operations the code uses are
  parameters, so what is proved holds for IEEE arithmetic as for any other. \<open>f_const\<close>
  is a numeric literal, \<open>f_of_int64\<close> the conversion \<^verbatim>\<open>float64(currCtr)\<close>.
\<close>

record 'f float64_ops =
  f_add :: "'f \<Rightarrow> 'f \<Rightarrow> 'f"
  f_mul :: "'f \<Rightarrow> 'f \<Rightarrow> 'f"
  f_div :: "'f \<Rightarrow> 'f \<Rightarrow> 'f"
  f_const :: "int \<Rightarrow> 'f"
  f_of_int64 :: "int64 \<Rightarrow> 'f"

text \<open>
  The two Go maps are association lists with \<^const>\<open>AList.update\<close> and
  \<^const>\<open>AList.delete\<close>; the mutex is left out (calls are modelled one at a time).
\<close>

record 'f AccessCache =
  cache :: "(string \<times> iface) list"
  lastviewed :: "string list"
  maxsize :: uint64
  verbose :: bool
  avgGet :: 'f
  avgSet :: 'f
  ctrGet :: int64
  ctrSet :: int64
  sizes :: "(string \<times> uint64) list"

definition NewAccessCache :: "'f float64_ops \<Rightarrow> uint64 \<Rightarrow> panic + 'f AccessCache" where
  "NewAccessCache ops size' =
     (if size' \<le> 0 then Inl SizeMustBeGreaterZero
      else Inr \<lparr>cache = [], lastviewed = [], maxsize = size', verbose = False,
                avgGet = f_const ops 0, avgSet = f_const ops 0,
                ctrGet = 0, ctrSet = 0, sizes = []\<rparr>)"

text \<open>The \<^verbatim>\<open>range\<close> loop of \<^verbatim>\<open>indexOfLastViewed\<close>, from index \<open>k\<close> on.\<close>

fun index_from :: "string \<Rightarrow> string list \<Rightarrow> int \<Rightarrow> int" where
  "index_from element [] k = -1"
| "index_from element (v # vs) k = (if element = v then k else index_from element vs (k + 1))"

definition indexOfLastViewed :: "string \<Rightarrow> 'f AccessCache \<Rightarrow> int" where
  "indexOfLastViewed element c = index_from element (lastviewed c) 0"

text \<open>
  \<^verbatim>\<open>append(c.lastviewed[:index], c.lastviewed[index+1:]...)\<close>: the slice expressions
  panic unless \<open>0 \<le> index < len\<close>.
\<close>

definition removeLastViewedAtIndex :: "int \<Rightarrow> 'f AccessCache \<Rightarrow> panic + 'f AccessCache" where
  "removeLastViewedAtIndex index c =
     (if 0 \<le> index \<and> index < int (length (lastviewed c))
      then Inr (c\<lparr>lastviewed := take (nat index) (lastviewed c) @ drop (nat index + 1) (lastviewed c)\<rparr>)
      else Inl SliceBoundsOutOfRange)"

definition appendLastViewed :: "string \<Rightarrow> 'f AccessCache \<Rightarrow> panic + 'f AccessCache" where
  "appendLastViewed key c =
     (let i = indexOfLastViewed key c in
      case (if i > -1 then removeLastViewedAtIndex i c else Inr c) of
        Inl p \<Rightarrow> Inl p
      | Inr c' \<Rightarrow> Inr (c'\<lparr>lastviewed := lastviewed c' @ [key]\<rparr>))"

text \<open>
  \<^verbatim>\<open>GetCacheSize\<close> ranges over the keys of \<^verbatim>\<open>c.cache\<close> and adds
  \<^verbatim>\<open>c.sizes[k]\<close> (zero when the key is missing) in \<^verbatim>\<open>uint64\<close>.
\<close>

definition size_of_key :: "(string \<times> uint64) list \<Rightarrow> string \<Rightarrow> uint64" where
  "size_of_key szs k = (case map_of szs k of None \<Rightarrow> 0 | Some s \<Rightarrow> s)"

definition GetCacheSize :: "'f AccessCache \<Rightarrow> uint64" where
  "GetCacheSize c = fold (\<lambda>k size. size + size_of_key (sizes c) k) (map fst (cache c)) 0"

text \<open>One round of the eviction loop: the oldest key leaves all three structures.\<close>

definition evict_oldest :: "'f AccessCache \<Rightarrow> panic + 'f AccessCache" where
  "evict_oldest c =
     removeLastViewedAtIndex 0
       (c\<lparr>cache := AList.delete (lastviewed c ! 0) (cache c),
          sizes := AList.delete (lastviewed c ! 0) (sizes c)\<rparr>)"

function clearOutdatedItems :: "'f AccessCache \<Rightarrow> panic + 'f AccessCache" where
  "clearOutdatedItems c =
     (if GetCacheSize c > maxsize c then
        if length (lastviewed c) = 0 then Inr c
        else (case evict_oldest c of
                Inl p \<Rightarrow> Inl p
              | Inr c' \<Rightarrow> clearOutdatedItems c')
      else Inr c)"
  by pat_completeness auto
termination
  by (relation "measure (\<lambda>c. length (lastviewed c))")
     (auto simp: evict_oldest_def removeLastViewedAtIndex_def split: if_splits)

declare clearOutdatedItems.simps [simp del]

definition calcAvg :: "'f float64_ops \<Rightarrow> 'f \<Rightarrow> int64 \<Rightarrow> 'f \<Rightarrow> 'f" where
  "calcAvg ops currAvg currCtr newValue =
     (let val = f_mul ops newValue (f_const ops 1000) in
      f_div ops (f_add ops (f_mul ops currAvg (f_of_int64 ops currCtr)) val)
                (f_add ops (f_of_int64 ops currCtr) (f_const ops 1)))"

text \<open>
  \<open>seconds\<close> is \<^verbatim>\<open>stop.Sub(start).Seconds()\<close>, the time the call took: an input of
  the model. \<^verbatim>\<open>Get\<close> returns the value (nil on a miss), the flag and the new state.
\<close>

definition Get :: "'f float64_ops \<Rightarrow> 'f \<Rightarrow> string \<Rightarrow> 'f AccessCache \<Rightarrow>
    panic + (iface \<times> bool \<times> 'f AccessCache)" where
  "Get ops seconds key c =
     (let (val, ok) = (case map_of (cache c) key of None \<Rightarrow> (None, False) | Some v \<Rightarrow> (v, True)) in
      case (if ok then appendLastViewed key c else Inr c) of
        Inl p \<Rightarrow> Inl p
      | Inr c' \<Rightarrow>
          Inr (val, ok, c'\<lparr>avgGet := calcAvg ops (avgGet c') (ctrGet c') seconds,
                           ctrGet := ctrGet c' + 1\<rparr>))"

definition too_large :: string where
  "too_large = ''Cannot add elements larger than the maximum cache size''"

text \<open>\<^verbatim>\<open>Set\<close> returns the error (\<open>None\<close> for nil) and the new state.\<close>

definition Set :: "'f float64_ops \<Rightarrow> heap \<Rightarrow> 'f \<Rightarrow> string \<Rightarrow> iface \<Rightarrow> 'f AccessCache \<Rightarrow>
    panic + (string option \<times> 'f AccessCache)" where
  "Set ops h seconds key val c =
     (case sizeof h [val] of
        Inl p \<Rightarrow> Inl p
      | Inr size' \<Rightarrow>
          if size' \<ge> maxsize c then Inr (Some too_large, c)
          else
            (case appendLastViewed key c of
               Inl p \<Rightarrow> Inl p
             | Inr c1 \<Rightarrow>
                 (case clearOutdatedItems
                         (c1\<lparr>cache := AList.update key val (cache c1),
                             sizes := AList.update key size' (sizes c1)\<rparr>) of
                    Inl p \<Rightarrow> Inl p
                  | Inr c2 \<Rightarrow>
                      Inr (None, c2\<lparr>avgSet := calcAvg ops (avgSet c2) (ctrSet c2) seconds,
                                     ctrSet := ctrSet c2 + 1\<rparr>))))"

definition GetItemSizes :: "'f AccessCache \<Rightarrow> (string \<times> uint64) list" where
  "GetItemSizes c = sizes c"

definition Count :: "'f AccessCache \<Rightarrow> nat" where
  "Count c = length (lastviewed c)"

definition GetAverageDurationForGet :: "'f AccessCache \<Rightarrow> 'f" where
  "GetAverageDurationForGet c = avgGet c"

definition GetAverageDurationForSet :: "'f AccessCache \<Rightarrow> 'f" where
  "GetAverageDurationForSet c = avgSet c"

definition GetLastViewedKey :: "'f AccessCache \<Rightarrow> string" where
  "GetLastViewedKey c =
     (let i = int (length (lastviewed c)) - 1 in
      if i < 0 then '''' else lastviewed c ! nat i)"

section \<open>Histories of calls\<close>

text \<open>
  \<open>evict_rounds n\<close> runs the body of the eviction loop \<open>n\<close> times, whatever the sizes.
\<close>

fun evict_rounds :: "nat \<Rightarrow> 'f AccessCache \<Rightarrow> panic + 'f AccessCache" where
  "evict_rounds 0 c = Inr c"
| "evict_rounds (Suc n) c =
     (case evict_oldest c of Inl p \<Rightarrow> Inl p | Inr c' \<Rightarrow> evict_rounds n c')"

text \<open>
  A caller's use of a cache is a list of calls of the two public operations. Each
  \<^verbatim>\<open>Set\<close> comes with the heap its value lives in and each call with the time it took.
\<close>

datatype 'f call =
    SetCall heap 'f string iface
  | GetCall 'f string

fun call_key :: "'f call \<Rightarrow> string" where
  "call_key (SetCall h seconds key val) = key"
| "call_key (GetCall seconds key) = key"

text \<open>
  \<open>perform\<close> makes one call; the flag tells whether the call touched its key, that is
  whether \<^verbatim>\<open>Set\<close> returned nil or \<^verbatim>\<open>Get\<close> found the key.
\<close>

fun perform :: "'f float64_ops \<Rightarrow> 'f call \<Rightarrow> 'f AccessCache \<Rightarrow> panic + (bool \<times> 'f AccessCache)" where
  "perform ops (SetCall h seconds key val) c =
     (case Set ops h seconds key val c of
        Inl p \<Rightarrow> Inl p
      | Inr (err, c') \<Rightarrow> Inr (err = None, c'))"
| "perform ops (GetCall seconds key) c =
     (case Get ops seconds key c of
        Inl p \<Rightarrow> Inl p
      | Inr (val, ok, c') \<Rightarrow> Inr (ok, c'))"

fun run :: "'f float64_ops \<Rightarrow> 'f call list \<Rightarrow> 'f AccessCache \<Rightarrow> panic + 'f AccessCache" where
  "run ops [] c = Inr c"
| "run ops (x # xs) c =
     (case perform ops x c of Inl p \<Rightarrow> Inl p | Inr (touched, c') \<Rightarrow> run ops xs c')"

text \<open>
  \<open>touch_times ops calls c now t\<close>: the calls are numbered from \<open>now + 1\<close>, and the
  result maps a key to the number of the last call that touched it (\<open>t\<close> before the
  first call).
\<close>

fun touch_times :: "'f float64_ops \<Rightarrow> 'f call list \<Rightarrow> 'f AccessCache \<Rightarrow> nat \<Rightarrow>
    (string \<Rightarrow> nat) \<Rightarrow> (string \<Rightarrow> nat)" where
  "touch_times ops [] c now t = t"
| "touch_times ops (x # xs) c now t =
     (case perform ops x c of
        Inl p \<Rightarrow> t
      | Inr (touched, c') \<Rightarrow>
          touch_times ops xs c' (now + 1) (if touched then t(call_key x := now + 1) else t))"

section \<open>Invariants\<close>

text \<open>
  \<open>stored key val sz c\<close> is the state of \<^verbatim>\<open>Set\<close> after the key is promoted and the value
  and its size are written, just before the eviction pass.
\<close>

definition stored :: "string \<Rightarrow> iface \<Rightarrow> uint64 \<Rightarrow> 'f AccessCache \<Rightarrow> 'f AccessCache" where
  "stored key val sz c =
     c\<lparr>lastviewed := remove1 key (lastviewed c) @ [key],
       cache := AList.update key val (cache c),
       sizes := AList.update key sz (sizes c)\<rparr>"

text \<open>
  The three structures hold the same keys, each key once.
\<close>

definition keys_inv :: "'f AccessCache \<Rightarrow> bool" where
  "keys_inv c \<longleftrightarrow>
     set (map fst (cache c)) = set (lastviewed c) \<and>
     set (map fst (sizes c)) = set (lastviewed c) \<and>
     distinct (lastviewed c) \<and>
     distinct (map fst (cache c)) \<and>
     distinct (map fst (sizes c))"

definition cache_inv :: "'f AccessCache \<Rightarrow> bool" where
  "cache_inv c \<longleftrightarrow> keys_inv c \<and> GetCacheSize c \<le> maxsize c"

section \<open>Examples\<close>

text \<open>
  Exact arithmetic on the reals stands in for \<^verbatim>\<open>float64\<close> in the examples, and
  \<open>no_heap\<close> is a heap for values without references.
\<close>

definition exact_ops :: "real float64_ops" where
  "exact_ops = \<lparr>f_add = (+), f_mul = (*), f_div = (/), f_const = of_int,
                 f_of_int64 = (\<lambda>n. of_int (sint n))\<rparr>"

definition no_heap :: heap where
  "no_heap = (\<lambda>a. VPtr None)"

text \<open>
  The calls of the repository's example program (\<^verbatim>\<open>main.go\<close>), up to the second
  \<^verbatim>\<open>Get\<close>, on a cache of 60 bytes; \<open>readme_cache\<close> is the state before the third
  \<^verbatim>\<open>Set\<close> and \<open>readme_cache_c\<close> the state after it.
\<close>

definition new60 :: "real AccessCache" where
  "new60 = \<lparr>cache = [], lastviewed = [], maxsize = 60, verbose = False,
            avgGet = 0, avgSet = 0, ctrGet = 0, ctrSet = 0, sizes = []\<rparr>"

definition readme_calls :: "real call list" where
  "readme_calls =
     [SetCall no_heap (1 / 1000) ''key-a'' (Some (VString 12)),
      SetCall no_heap (1 / 1000) ''key-b'' (Some (VString 13)),
      GetCall (1 / 1000) ''key-a'']"

definition readme_cache :: "real AccessCache" where
  "readme_cache =
     \<lparr>cache = [(''key-a'', Some (VString 12)), (''key-b'', Some (VString 13))],
      lastviewed = [''key-b'', ''key-a''], maxsize = 60, verbose = False,
      avgGet = 1, avgSet = 1, ctrGet = 1, ctrSet = 2,
      sizes = [(''key-a'', 28), (''key-b'', 29)]\<rparr>"

definition readme_cache_c :: "real AccessCache" where
  "readme_cache_c =
     \<lparr>cache = [(''key-a'', Some (VString 12)), (''key-c'', Some (VString 12))],
      lastviewed = [''key-a'', ''key-c''], maxsize = 60, verbose = False,
      avgGet = 1, avgSet = 1, ctrGet = 1, ctrSet = 3,
      sizes = [(''key-a'', 28), (''key-c'', 28)]\<rparr>"

definition over_cache :: "real AccessCache" where
  "over_cache =
     \<lparr>cache = [(''key-a'', Some (VString 12)), (''key-b'', Some (VString 13)),
               (''key-c'', Some (VString 12))],
      lastviewed = [''key-b'', ''key-a'', ''key-c''], maxsize = 60, verbose = False,
      avgGet = 1, avgSet = 1, ctrGet = 1, ctrSet = 2,
      sizes = [(''key-a'', 28), (''key-b'', 29), (''key-c'', 28)]\<rparr>"

section \<open>The recency order\<close>

lemma index_from_notin: "element \<notin> set vs \<Longrightarrow> index_from element vs k = -1"
  by (induction vs arbitrary: k) auto

lemma index_from_range:
  "element \<in> set vs \<Longrightarrow> k \<le> index_from element vs k \<and> index_from element vs k < k + int (length vs)"
proof (induction vs arbitrary: k)
  case Nil
  then show ?case by simp
next
  case (Cons v vs)
  show ?case
  proof (cases "element = v")
    case True
    then show ?thesis by simp
  next
    case False
    with Cons.prems have "element \<in> set vs" by simp
    from Cons.IH [OF this, of "k + 1"] False show ?thesis by simp
  qed
qed

lemma index_from_remove1:
  "element \<in> set vs \<Longrightarrow>
     take (nat (index_from element vs k - k)) vs @ drop (nat (index_from element vs k - k) + 1) vs
       = remove1 element vs"
proof (induction vs arbitrary: k)
  case Nil
  then show ?case by simp
next
  case (Cons v vs)
  show ?case
  proof (cases "element = v")
    case True
    then show ?thesis by simp
  next
    case False
    with Cons.prems have mem: "element \<in> set vs" by simp
    from index_from_range [OF mem, of "k + 1"]
    have "nat (index_from element vs (k + 1) - k) = Suc (nat (index_from element vs (k + 1) - (k + 1)))"
      by linarith
    with Cons.IH [OF mem, of "k + 1"] False show ?thesis by simp
  qed
qed

lemma appendLastViewed_eq:
  "appendLastViewed key c = Inr (c\<lparr>lastviewed := remove1 key (lastviewed c) @ [key]\<rparr>)"
proof (cases "key \<in> set (lastviewed c)")
  case True
  from index_from_range [OF True, of 0] index_from_remove1 [OF True, of 0]
  show ?thesis
    by (simp add: appendLastViewed_def indexOfLastViewed_def removeLastViewedAtIndex_def Let_def)
next
  case False
  then show ?thesis
    by (simp add: appendLastViewed_def indexOfLastViewed_def index_from_notin remove1_idem)
qed

lemma evict_oldest_eq:
  "lastviewed c \<noteq> [] \<Longrightarrow>
     evict_oldest c = Inr (c\<lparr>cache := AList.delete (hd (lastviewed c)) (cache c),
                          sizes := AList.delete (hd (lastviewed c)) (sizes c),
                          lastviewed := tl (lastviewed c)\<rparr>)"
  by (cases "lastviewed c") (simp_all add: evict_oldest_def removeLastViewedAtIndex_def)

lemma set_delete_keys: "set (map fst (AList.delete k al)) = set (map fst al) - {k}"
  by (simp add: delete_keys)

lemma keys_inv_evict:
  assumes "keys_inv c" and "lastviewed c \<noteq> []" and "evict_oldest c = Inr c'"
  shows "keys_inv c'"
proof -
  obtain k ks where lv: "lastviewed c = k # ks"
    using assms(2) by (cases "lastviewed c") auto
  from assms(3) lv have c': "c' = c\<lparr>cache := AList.delete k (cache c),
      sizes := AList.delete k (sizes c), lastviewed := ks\<rparr>"
    by (simp add: evict_oldest_eq)
  from assms(1) lv have "k \<notin> set ks" "distinct ks"
    by (simp_all add: keys_inv_def)
  with assms(1) lv show ?thesis
    unfolding c' keys_inv_def
    by (simp add: set_delete_keys distinct_delete del: set_map) 
qed

lemma GetCacheSize_empty: "cache c = [] \<Longrightarrow> GetCacheSize c = 0"
  by (simp add: GetCacheSize_def)

lemma clearOutdatedItems_props:
  "keys_inv c \<Longrightarrow>
     \<exists>c'. clearOutdatedItems c = Inr c' \<and> keys_inv c' \<and> GetCacheSize c' \<le> maxsize c' \<and>
          maxsize c' = maxsize c \<and> avgSet c' = avgSet c \<and> ctrSet c' = ctrSet c \<and>
          avgGet c' = avgGet c \<and> ctrGet c' = ctrGet c \<and> verbose c' = verbose c"
proof (induction c rule: clearOutdatedItems.induct)
  case (1 c)
  show ?case
  proof (cases "GetCacheSize c > maxsize c")
    case False
    with "1.prems" show ?thesis
      by (simp add: clearOutdatedItems.simps [of c])
  next
    case over: True
    show ?thesis
    proof (cases "lastviewed c = []")
      case True
      with "1.prems" have "cache c = []" by (simp add: keys_inv_def)
      then have "GetCacheSize c = 0" by (rule GetCacheSize_empty)
      with over show ?thesis by simp
    next
      case False
      let ?c1 = "c\<lparr>cache := AList.delete (hd (lastviewed c)) (cache c),
                     sizes := AList.delete (hd (lastviewed c)) (sizes c),
                     lastviewed := tl (lastviewed c)\<rparr>"
      have ev: "evict_oldest c = Inr ?c1" using False by (rule evict_oldest_eq)
      have "keys_inv ?c1" using "1.prems" False ev by (rule keys_inv_evict)
      from "1.IH" [OF over _ ev this] False
      obtain c' where "clearOutdatedItems ?c1 = Inr c'" "keys_inv c'"
        "GetCacheSize c' \<le> maxsize c'" "maxsize c' = maxsize ?c1"
        "avgSet c' = avgSet ?c1" "ctrSet c' = ctrSet ?c1"
        "avgGet c' = avgGet ?c1" "ctrGet c' = ctrGet ?c1" "verbose c' = verbose ?c1"
        by auto
      with over False ev show ?thesis
        by (simp add: clearOutdatedItems.simps [of c])
    qed
  qed
qed

lemma Set_cases:
  assumes "Set ops h seconds key val c = Inr (err, c')"
  obtains (rejected) sz where "sizeof h [val] = Inr sz" "sz \<ge> maxsize c"
      "err = Some too_large" "c' = c"
  | (accepted) sz c2 where "sizeof h [val] = Inr sz" "sz < maxsize c" "err = None"
      "clearOutdatedItems (stored key val sz c) = Inr c2"
      "c' = c2\<lparr>avgSet := calcAvg ops (avgSet c2) (ctrSet c2) seconds, ctrSet := ctrSet c2 + 1\<rparr>"
  using assms
  by (auto simp: Set_def appendLastViewed_eq stored_def split: sum.splits if_splits)

lemma set_update_keys: "set (map fst (AList.update k v al)) = insert k (set (map fst al))"
  by (simp add: dom_update)

lemma keys_inv_stored: "keys_inv c \<Longrightarrow> keys_inv (stored key val sz c)"
  unfolding keys_inv_def stored_def
  by (auto simp: set_update_keys distinct_update simp del: set_map)

lemma keys_inv_upd_avgSet [simp]: "keys_inv (c\<lparr>avgSet := a, ctrSet := n\<rparr>) = keys_inv c"
  by (simp add: keys_inv_def)

lemma keys_inv_upd_avgGet [simp]: "keys_inv (c\<lparr>avgGet := a, ctrGet := n\<rparr>) = keys_inv c"
  by (simp add: keys_inv_def)

lemma GetCacheSize_upd_avgSet [simp]: "GetCacheSize (c\<lparr>avgSet := a, ctrSet := n\<rparr>) = GetCacheSize c"
  by (simp add: GetCacheSize_def)

lemma GetCacheSize_upd_avgGet [simp]: "GetCacheSize (c\<lparr>avgGet := a, ctrGet := n\<rparr>) = GetCacheSize c"
  by (simp add: GetCacheSize_def)

lemma GetCacheSize_upd_lastviewed [simp]: "GetCacheSize (c\<lparr>lastviewed := l\<rparr>) = GetCacheSize c"
  by (simp add: GetCacheSize_def)

lemma cache_inv_Set:
  assumes "cache_inv c" and "Set ops h seconds key val c = Inr (err, c')"
  shows "cache_inv c' \<and> maxsize c' = maxsize c"
  using assms(2)
proof (cases rule: Set_cases)
  case (rejected sz)
  with assms(1) show ?thesis by simp
next
  case (accepted sz c2)
  from assms(1) have "keys_inv (stored key val sz c)"
    by (simp add: cache_inv_def keys_inv_stored)
  from clearOutdatedItems_props [OF this] accepted(4)
  have "keys_inv c2" "GetCacheSize c2 \<le> maxsize c2" "maxsize c2 = maxsize c"
    by (auto simp: stored_def)
  with accepted(5) show ?thesis by (simp add: cache_inv_def)
qed

lemma Get_cases:
  assumes "Get ops seconds key c = Inr (val, ok, c')"
  obtains (miss) "map_of (cache c) key = None" "val = None" "\<not> ok"
      "c' = c\<lparr>avgGet := calcAvg ops (avgGet c) (ctrGet c) seconds, ctrGet := ctrGet c + 1\<rparr>"
  | (hit) "map_of (cache c) key = Some val" "ok"
      "c' = c\<lparr>lastviewed := remove1 key (lastviewed c) @ [key],
              avgGet := calcAvg ops (avgGet c) (ctrGet c) seconds, ctrGet := ctrGet c + 1\<rparr>"
  using assms
  by (auto simp: Get_def appendLastViewed_eq split: option.splits)

lemma cache_inv_Get:
  assumes "cache_inv c" and "Get ops seconds key c = Inr (val, ok, c')"
  shows "cache_inv c' \<and> maxsize c' = maxsize c"
  using assms(2)
proof (cases rule: Get_cases)
  case miss
  with assms(1) show ?thesis by (simp add: cache_inv_def)
next
  case hit
  from hit(1) have "key \<in> set (map fst (cache c))"
    by (metis map_of_eq_None_iff option.distinct(1) set_map)
  with assms(1) have "key \<in> set (lastviewed c)" "distinct (lastviewed c)"
    by (simp_all add: cache_inv_def keys_inv_def)
  then have "set (remove1 key (lastviewed c) @ [key]) = set (lastviewed c)"
    and "distinct (remove1 key (lastviewed c) @ [key])"
    by auto
  with assms(1) hit(3) show ?thesis
    by (simp add: cache_inv_def keys_inv_def)
qed

lemma cache_inv_New: "NewAccessCache ops n = Inr c \<Longrightarrow> cache_inv c \<and> maxsize c = n"
  by (auto simp: NewAccessCache_def cache_inv_def keys_inv_def GetCacheSize_def split: if_splits)

lemma cache_inv_perform:
  "cache_inv c \<Longrightarrow> perform ops x c = Inr (touched, c') \<Longrightarrow> cache_inv c' \<and> maxsize c' = maxsize c"
  by (cases x) (auto split: sum.splits dest: cache_inv_Set cache_inv_Get)

lemma cache_inv_run:
  "cache_inv c \<Longrightarrow> run ops calls c = Inr c' \<Longrightarrow> cache_inv c' \<and> maxsize c' = maxsize c"
proof (induction calls arbitrary: c)
  case Nil
  then show ?case by simp
next
  case (Cons x xs)
  from Cons.prems(2) obtain touched c1 where p: "perform ops x c = Inr (touched, c1)"
    and r: "run ops xs c1 = Inr c'"
    by (auto split: sum.splits)
  from cache_inv_perform [OF Cons.prems(1) p] Cons.IH [OF _ r] show ?case by simp
qed

lemma fold_add_sum_list:
  "fold (\<lambda>k sz. sz + f k) ks (a::uint64) = a + sum_list (map f ks)"
  by (induction ks arbitrary: a) (simp_all add: add.assoc)

lemma GetCacheSize_sum_list:
  "GetCacheSize c = sum_list (map (size_of_key (sizes c)) (map fst (cache c)))"
  by (simp add: GetCacheSize_def fold_add_sum_list del: map_map)

lemma map_size_of_key:
  "distinct (map fst al) \<Longrightarrow> map (size_of_key al) (map fst al) = map snd al"
proof -
  assume d: "distinct (map fst al)"
  have "size_of_key al (fst x) = snd x" if "x \<in> set al" for x
  proof -
    from that have "(fst x, snd x) \<in> set al" by simp
    with d have "map_of al (fst x) = Some (snd x)" by (rule map_of_is_SomeI)
    then show ?thesis by (simp add: size_of_key_def)
  qed
  then show ?thesis by (simp add: comp_def)
qed

lemma GetCacheSize_stored_sizes:
  assumes "keys_inv c"
  shows "GetCacheSize c = sum_list (map snd (sizes c))"
proof -
  from assms have d: "distinct (map fst (cache c))" "distinct (map fst (sizes c))"
    and e: "set (map fst (cache c)) = set (map fst (sizes c))"
    by (simp_all add: keys_inv_def)
  have "GetCacheSize c = sum (size_of_key (sizes c)) (set (map fst (cache c)))"
    unfolding GetCacheSize_sum_list using d(1) by (rule sum_list_distinct_conv_sum_set)
  also have "\<dots> = sum (size_of_key (sizes c)) (set (map fst (sizes c)))"
    by (simp only: e)
  also have "\<dots> = sum_list (map (size_of_key (sizes c)) (map fst (sizes c)))"
    using d(2) by (rule sum_list_distinct_conv_sum_set [symmetric])
  also have "\<dots> = sum_list (map snd (sizes c))"
    using d(2) by (simp only: map_size_of_key)
  finally show ?thesis .
qed

lemma distinct_singleton: "distinct xs \<Longrightarrow> set xs = {k} \<Longrightarrow> xs = [k]"
proof -
  assume d: "distinct xs" and s: "set xs = {k}"
  from d have "length xs = card (set xs)" by (simp add: distinct_card)
  with s have "length xs = 1" by simp
  then obtain x where "xs = [x]" by (cases xs) auto
  with s show ?thesis by simp
qed

lemma clear_keeps_last:
  "keys_inv c \<Longrightarrow> lastviewed c \<noteq> [] \<Longrightarrow> last (lastviewed c) = key \<Longrightarrow>
   size_of_key (sizes c) key \<le> maxsize c \<Longrightarrow> clearOutdatedItems c = Inr c' \<Longrightarrow>
     lastviewed c' \<noteq> [] \<and> last (lastviewed c') = key \<and>
     map_of (cache c') key = map_of (cache c) key \<and>
     map_of (sizes c') key = map_of (sizes c) key"
proof (induction c rule: clearOutdatedItems.induct)
  case (1 c)
  show ?case
  proof (cases "GetCacheSize c > maxsize c")
    case False
    with "1.prems" show ?thesis
      by (simp add: clearOutdatedItems.simps [of c])
  next
    case over: True
    let ?c1 = "c\<lparr>cache := AList.delete (hd (lastviewed c)) (cache c),
                   sizes := AList.delete (hd (lastviewed c)) (sizes c),
                   lastviewed := tl (lastviewed c)\<rparr>"
    have ev: "evict_oldest c = Inr ?c1" using "1.prems"(2) by (rule evict_oldest_eq)
    have k1: "keys_inv ?c1" using "1.prems"(1,2) ev by (rule keys_inv_evict)
    have more: "tl (lastviewed c) \<noteq> []"
    proof
      assume "tl (lastviewed c) = []"
      with "1.prems"(2,3) have lv: "lastviewed c = [key]"
        by (cases "lastviewed c") auto
      with "1.prems"(1) have "map fst (cache c) = [key]"
        by (intro distinct_singleton) (simp_all add: keys_inv_def)
      then have "GetCacheSize c = size_of_key (sizes c) key"
        by (simp add: GetCacheSize_def)
      with over "1.prems"(4) show False by simp
    qed
    with "1.prems"(1,2,3) have ne: "hd (lastviewed c) \<noteq> key" and l: "last (tl (lastviewed c)) = key"
      by (cases "lastviewed c"; auto simp: keys_inv_def)+
    from ne have sz: "size_of_key (sizes ?c1) key = size_of_key (sizes c) key"
      by (simp add: size_of_key_def)
    from "1.prems"(5) over "1.prems"(2) ev have cl: "clearOutdatedItems ?c1 = Inr c'"
      by (simp add: clearOutdatedItems.simps [of c])
    from "1.IH" [OF over _ ev k1 _ _ _ cl] "1.prems"(2,4) more l sz ne
    show ?thesis by simp
  qed
qed

section \<open>Evaluating the example\<close>

lemma sizeof_string: "sizeof h [Some (VString n)] = Inr (16 + of_nat n)"
  by (simp add: sizeof_def sizeof_obj_def sizeofInternal.simps stringSize_def)

lemma new60_eq: "NewAccessCache exact_ops 60 = Inr new60"
  by (simp add: NewAccessCache_def new60_def exact_ops_def)

lemma clear_fits: "GetCacheSize c \<le> maxsize c \<Longrightarrow> clearOutdatedItems c = Inr c"
proof -
  assume "GetCacheSize c \<le> maxsize c"
  then have "\<not> maxsize c < GetCacheSize c" by (simp add: not_less)
  then show ?thesis by (simp add: clearOutdatedItems.simps [of c])
qed

lemma readme_run: "run exact_ops readme_calls new60 = Inr readme_cache"
  by (simp add: readme_calls_def new60_def readme_cache_def Set_def Get_def sizeof_string
      appendLastViewed_eq clear_fits GetCacheSize_def size_of_key_def calcAvg_def exact_ops_def)

lemma readme_set_c:
  "Set exact_ops no_heap (1 / 1000) ''key-c'' (Some (VString 12)) readme_cache = Inr (None, readme_cache_c)"
  by (simp add: Set_def sizeof_string readme_cache_def readme_cache_c_def appendLastViewed_eq
      clearOutdatedItems.simps [of "\<lparr>cache = _, lastviewed = _, maxsize = _, verbose = _, avgGet = _,
        avgSet = _, ctrGet = _, ctrSet = _, sizes = _\<rparr>"]
      evict_oldest_eq GetCacheSize_def size_of_key_def calcAvg_def exact_ops_def)

lemma GetLastViewedKey_last: "lastviewed c \<noteq> [] \<Longrightarrow> GetLastViewedKey c = last (lastviewed c)"
  by (simp add: GetLastViewedKey_def Let_def last_conv_nth nat_diff_distrib')

section \<open>The claims\<close>

text \<open>
  Claim C1. After construction and after every completed \<^verbatim>\<open>Set\<close> and \<^verbatim>\<open>Get\<close>
  (with the eviction pass they run) the entries map, the sizes map and the recency order hold
  the same keys, the recency order has no duplicate, and the sum of the stored sizes, which is
  what \<^verbatim>\<open>GetCacheSize\<close> returns, is at most \<^verbatim>\<open>maxsize\<close>. The sum is the
  \<^verbatim>\<open>uint64\<close> sum the code computes.
\<close>

theorem cache_invariant:
  assumes "NewAccessCache ops n = Inr c0" and "run ops calls c0 = Inr c"
  shows "set (map fst (cache c)) = set (lastviewed c) \<and>
         set (map fst (sizes c)) = set (lastviewed c) \<and>
         distinct (lastviewed c) \<and>
         sum_list (map snd (sizes c)) \<le> maxsize c \<and>
         GetCacheSize c \<le> maxsize c"
proof -
  from assms(1) have "cache_inv c0" by (simp add: cache_inv_New)
  from cache_inv_run [OF this assms(2)] have inv: "cache_inv c" by simp
  then have "keys_inv c" by (simp add: cache_inv_def)
  from GetCacheSize_stored_sizes [OF this] inv show ?thesis
    by (simp add: cache_inv_def keys_inv_def)
qed

theorem cache_invariant_witness:
  "NewAccessCache exact_ops 60 = Inr new60 \<and> run exact_ops readme_calls new60 = Inr readme_cache \<and>
   set (map fst (cache readme_cache)) = set (lastviewed readme_cache) \<and>
   set (map fst (sizes readme_cache)) = set (lastviewed readme_cache) \<and>
   distinct (lastviewed readme_cache) \<and>
   sum_list (map snd (sizes readme_cache)) \<le> maxsize readme_cache \<and>
   GetCacheSize readme_cache \<le> maxsize readme_cache"
  using cache_invariant [OF new60_eq readme_run] new60_eq readme_run by simp

text \<open>
  Claim C2. When the estimated size of the value is at least \<^verbatim>\<open>maxsize\<close>,
  \<^verbatim>\<open>Set\<close> returns the error and the state it returns is the state it was given: entries,
  sizes, recency order and with them \<^verbatim>\<open>Count\<close> and \<^verbatim>\<open>GetCacheSize\<close> are
  unchanged.
\<close>

theorem Set_rejects_large:
  assumes "sizeof h [val] = Inr sz" and "sz \<ge> maxsize c"
  shows "Set ops h seconds key val c = Inr (Some too_large, c)"
  using assms by (simp add: Set_def)

theorem Set_rejects_large_witness:
  "sizeof no_heap [Some (VString 1024)] = Inr 1040 \<and> (1040 :: uint64) \<ge> maxsize (new60\<lparr>maxsize := 900\<rparr>) \<and>
   Set exact_ops no_heap 0 ''a'' (Some (VString 1024)) (new60\<lparr>maxsize := 900\<rparr>)
     = Inr (Some too_large, new60\<lparr>maxsize := 900\<rparr>)"
proof -
  have s: "sizeof no_heap [Some (VString 1024)] = Inr 1040" by (simp add: sizeof_string)
  have m: "(1040 :: uint64) \<ge> maxsize (new60\<lparr>maxsize := 900\<rparr>)" by simp
  from Set_rejects_large [OF s m] s m show ?thesis by simp
qed

text \<open>
  Claim C4. When \<^verbatim>\<open>Get\<close> finds the key, the key is the last viewed key afterwards, and
  the new recency order is the old one with the key's occurrence removed and the key appended.
\<close>

theorem Get_promotes:
  assumes "Get ops seconds key c = Inr (val, True, c')"
  shows "GetLastViewedKey c' = key \<and> lastviewed c' = remove1 key (lastviewed c) @ [key]"
  using assms by (cases rule: Get_cases) (simp_all add: GetLastViewedKey_last)

theorem Get_promotes_witness:
  "Get exact_ops (1 / 1000) ''key-b'' readme_cache
     = Inr (Some (VString 13), True,
            readme_cache\<lparr>lastviewed := [''key-a'', ''key-b''], avgGet := 1, ctrGet := 2\<rparr>) \<and>
   GetLastViewedKey (readme_cache\<lparr>lastviewed := [''key-a'', ''key-b''], avgGet := 1, ctrGet := 2\<rparr>)
     = ''key-b'' \<and>
   lastviewed (readme_cache\<lparr>lastviewed := [''key-a'', ''key-b''], avgGet := 1, ctrGet := 2\<rparr>)
     = remove1 ''key-b'' (lastviewed readme_cache) @ [''key-b'']"
proof -
  have g: "Get exact_ops (1 / 1000) ''key-b'' readme_cache
     = Inr (Some (VString 13), True,
            readme_cache\<lparr>lastviewed := [''key-a'', ''key-b''], avgGet := 1, ctrGet := 2\<rparr>)"
    by (simp add: Get_def readme_cache_def appendLastViewed_eq calcAvg_def exact_ops_def)
  from Get_promotes [OF g] g show ?thesis by simp
qed

text \<open>
  Claim C5. On a cache built by \<^verbatim>\<open>NewAccessCache\<close> and used through \<^verbatim>\<open>Set\<close> and
  \<^verbatim>\<open>Get\<close>, a \<^verbatim>\<open>Set\<close> that returns nil leaves its key in the cache with the
  value just given, \<^verbatim>\<open>Get\<close> finds it, and the key is the last viewed key: the eviction
  pass of the same \<^verbatim>\<open>Set\<close> never removes it.
\<close>

theorem Set_keeps_new_entry:
  assumes "NewAccessCache ops n = Inr c0" and "run ops calls c0 = Inr c"
    and "Set ops h seconds key val c = Inr (None, c')"
  shows "map_of (cache c') key = Some val \<and> GetLastViewedKey c' = key \<and>
         (\<exists>c''. Get ops seconds' key c' = Inr (val, True, c''))"
  using assms(3)
proof (cases rule: Set_cases)
  case (rejected sz)
  then show ?thesis by simp
next
  case (accepted sz c2)
  from assms(1) have "cache_inv c0" by (simp add: cache_inv_New)
  from cache_inv_run [OF this assms(2)] have "keys_inv c" by (simp add: cache_inv_def)
  then have k: "keys_inv (stored key val sz c)" by (rule keys_inv_stored)
  have "size_of_key (sizes (stored key val sz c)) key = sz"
    by (simp add: stored_def size_of_key_def update_conv')
  with accepted(2) have le: "size_of_key (sizes (stored key val sz c)) key \<le> maxsize (stored key val sz c)"
    by (simp add: stored_def)
  have ne: "lastviewed (stored key val sz c) \<noteq> []" and l: "last (lastviewed (stored key val sz c)) = key"
    by (simp_all add: stored_def)
  from clear_keeps_last [OF k ne l le accepted(4)]
  have "lastviewed c2 \<noteq> []" "last (lastviewed c2) = key" "map_of (cache c2) key = Some val"
    by (simp_all add: stored_def update_conv')
  with accepted(5) have *: "lastviewed c' \<noteq> []" "last (lastviewed c') = key" "map_of (cache c') key = Some val"
    by simp_all
  then have "GetLastViewedKey c' = key" by (simp add: GetLastViewedKey_last)
  moreover from *(3) have "\<exists>c''. Get ops seconds' key c' = Inr (val, True, c'')"
    by (simp add: Get_def appendLastViewed_eq)
  ultimately show ?thesis using *(3) by simp
qed

theorem Set_keeps_new_entry_witness:
  "NewAccessCache exact_ops 60 = Inr new60 \<and> run exact_ops readme_calls new60 = Inr readme_cache \<and>
   Set exact_ops no_heap (1 / 1000) ''key-c'' (Some (VString 12)) readme_cache = Inr (None, readme_cache_c) \<and>
   map_of (cache readme_cache_c) ''key-c'' = Some (Some (VString 12)) \<and>
   GetLastViewedKey readme_cache_c = ''key-c'' \<and>
   (\<exists>c''. Get exact_ops 0 ''key-c'' readme_cache_c = Inr (Some (VString 12), True, c''))"
  using Set_keeps_new_entry [OF new60_eq readme_run readme_set_c] new60_eq readme_run readme_set_c
  by simp

text \<open>
  Claim C9. \<^verbatim>\<open>NewAccessCache\<close> panics on size zero (the parameter is unsigned, so there
  is no negative size) and returns no cache; with a positive size it returns an empty cache of
  that capacity: no entry, \<^verbatim>\<open>Count\<close> and \<^verbatim>\<open>GetCacheSize\<close> zero, the empty
  string as last viewed key, and no item sizes.
\<close>

theorem NewAccessCache_spec:
  "(size' \<le> 0 \<longrightarrow> NewAccessCache ops size' = Inl SizeMustBeGreaterZero) \<and>
   (0 < size' \<longrightarrow>
      (\<exists>c. NewAccessCache ops size' = Inr c \<and> maxsize c = size' \<and> cache c = [] \<and>
           Count c = 0 \<and> GetCacheSize c = 0 \<and> GetLastViewedKey c = '''' \<and> GetItemSizes c = []))"
  by (auto simp: NewAccessCache_def Count_def GetCacheSize_def GetLastViewedKey_def GetItemSizes_def)

theorem NewAccessCache_spec_witness:
  "NewAccessCache exact_ops 0 = Inl SizeMustBeGreaterZero \<and>
   (\<exists>c. NewAccessCache exact_ops 500 = Inr c \<and> maxsize c = 500 \<and> cache c = [] \<and>
        Count c = 0 \<and> GetCacheSize c = 0 \<and> GetLastViewedKey c = '''' \<and> GetItemSizes c = [])"
  using NewAccessCache_spec [of 0 exact_ops] NewAccessCache_spec [of 500 exact_ops] by simp

lemma evict_rounds_fields:
  "evict_rounds n c = Inr c' \<Longrightarrow>
     n \<le> length (lastviewed c) \<and> lastviewed c' = drop n (lastviewed c) \<and>
     maxsize c' = maxsize c \<and> verbose c' = verbose c \<and>
     avgSet c' = avgSet c \<and> ctrSet c' = ctrSet c \<and> avgGet c' = avgGet c \<and> ctrGet c' = ctrGet c"
proof (induction n arbitrary: c)
  case 0
  then show ?case by simp
next
  case (Suc n)
  from Suc.prems obtain c1 where ev: "evict_oldest c = Inr c1" and r: "evict_rounds n c1 = Inr c'"
    by (auto split: sum.splits)
  from ev have ne: "lastviewed c \<noteq> []"
    by (auto simp: evict_oldest_def removeLastViewedAtIndex_def split: if_splits)
  with ev have c1: "c1 = c\<lparr>cache := AList.delete (hd (lastviewed c)) (cache c),
      sizes := AList.delete (hd (lastviewed c)) (sizes c), lastviewed := tl (lastviewed c)\<rparr>"
    by (simp add: evict_oldest_eq)
  from Suc.IH [OF r] ne show ?case
    by (cases "lastviewed c") (simp_all add: c1)
qed

lemma clear_rounds:
  "\<exists>n c'. clearOutdatedItems c = Inr c' \<and> evict_rounds n c = Inr c' \<and>
     (GetCacheSize c' \<le> maxsize c' \<or> lastviewed c' = []) \<and>
     (\<forall>i<n. \<exists>ci. evict_rounds i c = Inr ci \<and> maxsize ci < GetCacheSize ci \<and> lastviewed ci \<noteq> [])"
proof (induction c rule: clearOutdatedItems.induct)
  case (1 c)
  show ?case
  proof (cases "maxsize c < GetCacheSize c \<and> lastviewed c \<noteq> []")
    case False
    then have "clearOutdatedItems c = Inr c"
      by (auto simp: clearOutdatedItems.simps [of c])
    moreover have "evict_rounds 0 c = Inr c" by simp
    moreover from False have "GetCacheSize c \<le> maxsize c \<or> lastviewed c = []"
      by (auto simp: not_less)
    ultimately show ?thesis by (intro exI [of _ 0] exI [of _ c]) simp
  next
    case True
    then have over: "maxsize c < GetCacheSize c" and ne: "lastviewed c \<noteq> []" by simp_all
    let ?c1 = "c\<lparr>cache := AList.delete (hd (lastviewed c)) (cache c),
                   sizes := AList.delete (hd (lastviewed c)) (sizes c),
                   lastviewed := tl (lastviewed c)\<rparr>"
    have ev: "evict_oldest c = Inr ?c1" using ne by (rule evict_oldest_eq)
    from "1.IH" [OF over _ ev] ne
    obtain n c' where cl: "clearOutdatedItems ?c1 = Inr c'" and r: "evict_rounds n ?c1 = Inr c'"
      and ex: "GetCacheSize c' \<le> maxsize c' \<or> lastviewed c' = []"
      and steps: "\<forall>i<n. \<exists>ci. evict_rounds i ?c1 = Inr ci \<and> maxsize ci < GetCacheSize ci \<and> lastviewed ci \<noteq> []"
      by auto
    from cl over ne ev have a: "clearOutdatedItems c = Inr c'"
      by (simp add: clearOutdatedItems.simps [of c])
    from r ev have b: "evict_rounds (Suc n) c = Inr c'" by simp
    have c: "\<exists>ci. evict_rounds i c = Inr ci \<and> maxsize ci < GetCacheSize ci \<and> lastviewed ci \<noteq> []"
      if "i < Suc n" for i
    proof (cases i)
      case 0
      with over ne show ?thesis by simp
    next
      case (Suc j)
      with that have "j < n" by simp
      with steps Suc ev show ?thesis by simp
    qed
    from a b ex c show ?thesis by blast
  qed
qed

lemma Set_total:
  "sizeof h [val] = Inr sz \<Longrightarrow> \<exists>err c'. Set ops h seconds key val c = Inr (err, c')"
proof -
  assume s: "sizeof h [val] = Inr sz"
  from clear_rounds [of "stored key val sz c"]
  obtain c2 where "clearOutdatedItems (stored key val sz c) = Inr c2" by blast
  with s show ?thesis
    by (simp add: Set_def appendLastViewed_eq stored_def)
qed

lemma clear_fields:
  assumes "clearOutdatedItems c = Inr c'"
  shows "maxsize c' = maxsize c \<and> avgSet c' = avgSet c \<and> ctrSet c' = ctrSet c \<and>
         avgGet c' = avgGet c \<and> ctrGet c' = ctrGet c"
proof -
  from clear_rounds [of c] assms obtain n where "evict_rounds n c = Inr c'" by auto
  from evict_rounds_fields [OF this] show ?thesis by simp
qed

text \<open>
  Claim C8, as the code has it. A \<^verbatim>\<open>Set\<close> that returns nil updates the rolling average
  of \<^verbatim>\<open>Set\<close>: the new average is \<^verbatim>\<open>calcAvg\<close> of the old average, the old count
  and the duration, and the count grows by one. A \<^verbatim>\<open>Set\<close> that returns the error leaves the
  average and the count as they were. \<^verbatim>\<open>Get\<close> updates its average and count on every call,
  hit or miss. \<^verbatim>\<open>calcAvg\<close> is \<open>(avg * count + seconds * 1000) / (count + 1)\<close> in
  \<^verbatim>\<open>float64\<close>.
\<close>

theorem latency_averages:
  "(Set ops h seconds key val c = Inr (None, c') \<longrightarrow>
      avgSet c' = calcAvg ops (avgSet c) (ctrSet c) seconds \<and> ctrSet c' = ctrSet c + 1) \<and>
   (Set ops h seconds key val c = Inr (Some e, c') \<longrightarrow>
      avgSet c' = avgSet c \<and> ctrSet c' = ctrSet c) \<and>
   (Get ops seconds key c = Inr (v, ok, c'') \<longrightarrow>
      avgGet c'' = calcAvg ops (avgGet c) (ctrGet c) seconds \<and> ctrGet c'' = ctrGet c + 1) \<and>
   calcAvg ops currAvg currCtr seconds =
     f_div ops (f_add ops (f_mul ops currAvg (f_of_int64 ops currCtr))
                          (f_mul ops seconds (f_const ops 1000)))
               (f_add ops (f_of_int64 ops currCtr) (f_const ops 1))"
proof (intro conjI impI)
  assume s: "Set ops h seconds key val c = Inr (None, c')"
  then show "avgSet c' = calcAvg ops (avgSet c) (ctrSet c) seconds"
    by (cases rule: Set_cases) (auto dest: clear_fields simp: stored_def)
  from s show "ctrSet c' = ctrSet c + 1"
    by (cases rule: Set_cases) (auto dest: clear_fields simp: stored_def)
next
  assume s: "Set ops h seconds key val c = Inr (Some e, c')"
  then show "avgSet c' = avgSet c" by (cases rule: Set_cases) simp_all
  from s show "ctrSet c' = ctrSet c" by (cases rule: Set_cases) simp_all
next
  assume g: "Get ops seconds key c = Inr (v, ok, c'')"
  then show "avgGet c'' = calcAvg ops (avgGet c) (ctrGet c) seconds"
    by (cases rule: Get_cases) simp_all
  from g show "ctrGet c'' = ctrGet c + 1"
    by (cases rule: Get_cases) simp_all
next
  show "calcAvg ops currAvg currCtr seconds =
     f_div ops (f_add ops (f_mul ops currAvg (f_of_int64 ops currCtr))
                          (f_mul ops seconds (f_const ops 1000)))
               (f_add ops (f_of_int64 ops currCtr) (f_const ops 1))"
    by (simp add: calcAvg_def)
qed

theorem rejected_Set_counterexample:
  "Set exact_ops no_heap (1 / 1000) ''a'' (Some (VString 1024)) (new60\<lparr>maxsize := 900\<rparr>)
     = Inr (Some too_large, new60\<lparr>maxsize := 900\<rparr>) \<and>
   ctrSet (new60\<lparr>maxsize := 900\<rparr>) \<noteq> ctrSet (new60\<lparr>maxsize := 900\<rparr>) + 1 \<and>
   avgSet (new60\<lparr>maxsize := 900\<rparr>)
     \<noteq> calcAvg exact_ops (avgSet (new60\<lparr>maxsize := 900\<rparr>)) (ctrSet (new60\<lparr>maxsize := 900\<rparr>)) (1 / 1000)"
  by (simp add: Set_def sizeof_string new60_def calcAvg_def exact_ops_def)

lemma readme_get_miss:
  "Get exact_ops (1 / 1000) ''key-z'' readme_cache
     = Inr (None, False, readme_cache\<lparr>avgGet := 1, ctrGet := 2\<rparr>)"
  by (simp add: Get_def readme_cache_def calcAvg_def exact_ops_def)

theorem latency_averages_witness:
  "Set exact_ops no_heap (1 / 1000) ''key-c'' (Some (VString 12)) readme_cache = Inr (None, readme_cache_c) \<and>
   avgSet readme_cache_c = calcAvg exact_ops (avgSet readme_cache) (ctrSet readme_cache) (1 / 1000) \<and>
   ctrSet readme_cache_c = ctrSet readme_cache + 1 \<and>
   Get exact_ops (1 / 1000) ''key-z'' readme_cache
     = Inr (None, False, readme_cache\<lparr>avgGet := 1, ctrGet := 2\<rparr>) \<and>
   avgGet (readme_cache\<lparr>avgGet := 1, ctrGet := 2\<rparr>)
     = calcAvg exact_ops (avgGet readme_cache) (ctrGet readme_cache) (1 / 1000) \<and>
   ctrGet (readme_cache\<lparr>avgGet := 1, ctrGet := 2\<rparr>) = ctrGet readme_cache + 1"
proof -
  note set_part = latency_averages [where ops = exact_ops and h = no_heap and seconds = "1 / 1000"
      and key = "''key-c''" and val = "Some (VString 12)" and c = readme_cache
      and c' = readme_cache_c]
  note get_part = latency_averages [where ops = exact_ops and seconds = "1 / 1000"
      and key = "''key-z''" and c = readme_cache and v = None and ok = False
      and c'' = "readme_cache\<lparr>avgGet := 1, ctrGet := 2\<rparr>"]
  from set_part readme_set_c
  have a: "avgSet readme_cache_c = calcAvg exact_ops (avgSet readme_cache) (ctrSet readme_cache) (1 / 1000) \<and>
      ctrSet readme_cache_c = ctrSet readme_cache + 1"
    by blast
  from get_part readme_get_miss
  have b: "avgGet (readme_cache\<lparr>avgGet := 1, ctrGet := 2\<rparr>)
        = calcAvg exact_ops (avgGet readme_cache) (ctrGet readme_cache) (1 / 1000) \<and>
      ctrGet (readme_cache\<lparr>avgGet := 1, ctrGet := 2\<rparr>) = ctrGet readme_cache + 1"
    by blast
  from a b readme_set_c readme_get_miss show ?thesis by blast
qed

lemma evict_oldest_Count:
  "evict_oldest c = Inr c' \<Longrightarrow> Count c' < Count c"
  by (auto simp: evict_oldest_def removeLastViewedAtIndex_def Count_def split: if_splits)

lemma evict_rounds_Suc_end:
  "evict_rounds (Suc i) c = (case evict_rounds i c of Inl p \<Rightarrow> Inl p | Inr x \<Rightarrow> evict_oldest x)"
proof (induction i arbitrary: c)
  case 0
  show ?case by (simp split: sum.split)
next
  case (Suc i)
  show ?case
  proof (cases "evict_oldest c")
    case (Inl p)
    then show ?thesis by simp
  next
    case (Inr c1)
    have "evict_rounds (Suc (Suc i)) c = evict_rounds (Suc i) c1"
      using Inr by (simp del: evict_rounds.simps add: evict_rounds.simps(2) [of "Suc i" c])
    also have "\<dots> = (case evict_rounds i c1 of Inl p \<Rightarrow> Inl p | Inr x \<Rightarrow> evict_oldest x)"
      by (rule Suc.IH)
    also have "evict_rounds i c1 = evict_rounds (Suc i) c"
      using Inr by simp
    finally show ?thesis .
  qed
qed

text \<open>
  Claim C10. From every cache state the eviction pass \<^verbatim>\<open>clearOutdatedItems\<close> returns, after
  a number \<open>n\<close> of rounds that is at most the number of cached entries. Before each of the
  \<open>n\<close> rounds the size was above \<^verbatim>\<open>maxsize\<close> and the recency order not empty; the round
  removes the head key from the entries map, the sizes map and the recency order, and
  \<^verbatim>\<open>Count\<close> is strictly smaller after it. The state returned has a size of at most
  \<^verbatim>\<open>maxsize\<close> or an empty recency order.
\<close>

theorem eviction_terminates:
  "\<exists>n c'. n \<le> Count c \<and> clearOutdatedItems c = Inr c' \<and> evict_rounds n c = Inr c' \<and>
     Count c' = Count c - n \<and>
     (GetCacheSize c' \<le> maxsize c' \<or> lastviewed c' = []) \<and>
     (\<forall>i<n. \<exists>ci. evict_rounds i c = Inr ci \<and>
          maxsize ci < GetCacheSize ci \<and> lastviewed ci \<noteq> [] \<and>
          evict_rounds (Suc i) c =
            Inr (ci\<lparr>cache := AList.delete (hd (lastviewed ci)) (cache ci),
                    sizes := AList.delete (hd (lastviewed ci)) (sizes ci),
                    lastviewed := tl (lastviewed ci)\<rparr>) \<and>
          Count (ci\<lparr>cache := AList.delete (hd (lastviewed ci)) (cache ci),
                    sizes := AList.delete (hd (lastviewed ci)) (sizes ci),
                    lastviewed := tl (lastviewed ci)\<rparr>) < Count ci)"
proof -
  from clear_rounds [of c]
  obtain n c' where cl: "clearOutdatedItems c = Inr c'" and r: "evict_rounds n c = Inr c'"
    and ex: "GetCacheSize c' \<le> maxsize c' \<or> lastviewed c' = []"
    and steps: "\<forall>i<n. \<exists>ci. evict_rounds i c = Inr ci \<and> maxsize ci < GetCacheSize ci \<and> lastviewed ci \<noteq> []"
    by blast
  from evict_rounds_fields [OF r] have n: "n \<le> Count c" and cnt: "Count c' = Count c - n"
    by (simp_all add: Count_def)
  have "\<exists>ci. evict_rounds i c = Inr ci \<and>
          maxsize ci < GetCacheSize ci \<and> lastviewed ci \<noteq> [] \<and>
          evict_rounds (Suc i) c =
            Inr (ci\<lparr>cache := AList.delete (hd (lastviewed ci)) (cache ci),
                    sizes := AList.delete (hd (lastviewed ci)) (sizes ci),
                    lastviewed := tl (lastviewed ci)\<rparr>) \<and>
          Count (ci\<lparr>cache := AList.delete (hd (lastviewed ci)) (cache ci),
                    sizes := AList.delete (hd (lastviewed ci)) (sizes ci),
                    lastviewed := tl (lastviewed ci)\<rparr>) < Count ci" if "i < n" for i
  proof -
    from steps that obtain ci where ci: "evict_rounds i c = Inr ci" "maxsize ci < GetCacheSize ci"
      "lastviewed ci \<noteq> []" by blast
    from ci(3) have ev: "evict_oldest ci = Inr (ci\<lparr>cache := AList.delete (hd (lastviewed ci)) (cache ci),
                    sizes := AList.delete (hd (lastviewed ci)) (sizes ci),
                    lastviewed := tl (lastviewed ci)\<rparr>)"
      by (rule evict_oldest_eq)
    from evict_rounds_Suc_end [of i c] ci(1) ev have "evict_rounds (Suc i) c = Inr (ci\<lparr>cache := AList.delete (hd (lastviewed ci)) (cache ci),
                    sizes := AList.delete (hd (lastviewed ci)) (sizes ci),
                    lastviewed := tl (lastviewed ci)\<rparr>)"
      by simp
    with ci ev evict_oldest_Count [OF ev] show ?thesis by blast
  qed
  with n cl r cnt ex show ?thesis by blast
qed

lemma over_cache_clear:
  "clearOutdatedItems over_cache = Inr (readme_cache_c\<lparr>ctrSet := 2\<rparr>)"
  by (simp add: over_cache_def readme_cache_c_def
      clearOutdatedItems.simps [of "\<lparr>cache = _, lastviewed = _, maxsize = _, verbose = _, avgGet = _,
        avgSet = _, ctrGet = _, ctrSet = _, sizes = _\<rparr>"]
      evict_oldest_eq GetCacheSize_def size_of_key_def)

theorem eviction_terminates_witness:
  "clearOutdatedItems over_cache = Inr (readme_cache_c\<lparr>ctrSet := 2\<rparr>) \<and>
   (\<exists>n. 0 < n \<and> n \<le> Count over_cache \<and>
      evict_rounds n over_cache = Inr (readme_cache_c\<lparr>ctrSet := 2\<rparr>) \<and>
      (\<forall>i<n. \<exists>ci. evict_rounds i over_cache = Inr ci \<and>
           maxsize ci < GetCacheSize ci \<and> lastviewed ci \<noteq> []))"
proof -
  from eviction_terminates [of over_cache]
  obtain n c' where n: "n \<le> Count over_cache" and cl: "clearOutdatedItems over_cache = Inr c'"
    and r: "evict_rounds n over_cache = Inr c'" and cnt: "Count c' = Count over_cache - n"
    and steps: "\<forall>i<n. \<exists>ci. evict_rounds i over_cache = Inr ci \<and>
           maxsize ci < GetCacheSize ci \<and> lastviewed ci \<noteq> []"
    by blast
  from cl have c': "c' = readme_cache_c\<lparr>ctrSet := 2\<rparr>" by (simp add: over_cache_clear)
  from cnt have "0 < n"
    by (simp add: c' Count_def over_cache_def readme_cache_c_def)
  with n r steps over_cache_clear show ?thesis unfolding c' by blast
qed

end
